theory Spec2Isabelle
  imports Main
begin

section \<open>Race to 18: the data model\<close>

text \<open>
  The server keeps, per room, a roster of players, a turn cursor and one rules engine.
  The model follows \<^verbatim>\<open>Player.ts\<close>, \<^verbatim>\<open>GameState.ts\<close>, \<^verbatim>\<open>GameRoom.ts\<close> and the
  state effect of the event handlers of \<^verbatim>\<open>socketHandler.ts\<close>. A method that mutates
  \<^verbatim>\<open>this\<close> or an argument takes the old value and returns the new one. Scores and rolls
  are JavaScript numbers that only ever hold integers, hence \<open>int\<close>.
\<close>

subsection \<open>Player\<close>

datatype PlayerStatus = Active | Bust | Held | Won

record Player =
  id_p :: string
  name_p :: string
  socketId :: string
  score :: int
  status :: PlayerStatus
  joinedAt :: nat

record PlayerData =
  pd_id :: string
  pd_name :: string
  pd_score :: int
  pd_status :: PlayerStatus

text \<open>The constructor; the clock reading \<^verbatim>\<open>Date.now()\<close> is an argument.\<close>

definition new_Player :: "string \<Rightarrow> string \<Rightarrow> string \<Rightarrow> nat \<Rightarrow> Player" where
  "new_Player i n s now =
     \<lparr>id_p = i, name_p = n, socketId = s, score = 0, status = Active, joinedAt = now\<rparr>"

definition reset_p :: "Player \<Rightarrow> Player" where
  "reset_p p = p\<lparr>score := 0, status := Active\<rparr>"

definition toJSON :: "Player \<Rightarrow> PlayerData" where
  "toJSON p = \<lparr>pd_id = id_p p, pd_name = name_p p, pd_score = score p, pd_status = status p\<rparr>"

subsection \<open>GameState\<close>

datatype GameStatus = G_playing | G_bust | G_perfect | G_held | G_error

text \<open>
  The message of a result is a template string; the model keeps the template and the
  values spliced into it.
\<close>

datatype message =
    Busted_with string int
  | Hit_perfect string
  | Rolled string int int
  | Cannot_hold
  | Held_at string int int

record ScoreUpdateResult =
  su_status :: GameStatus
  su_message :: message
  newScore :: int

record HoldResult =
  h_status :: GameStatus
  h_message :: message
  finalScore :: "int option"

record GameState =
  targetScore :: int
  gameStarted :: bool
  gameOver :: bool
  winner :: "string option"

definition new_GameState :: GameState where
  "new_GameState = \<lparr>targetScore = 18, gameStarted = False, gameOver = False, winner = None\<rparr>"

text \<open>
  \<^verbatim>\<open>updateScore(player, roll)\<close>: the result, the rules engine and the player afterwards.
\<close>

definition updateScore :: "GameState \<Rightarrow> Player \<Rightarrow> int \<Rightarrow> ScoreUpdateResult \<times> GameState \<times> Player" where
  "updateScore gs player roll =
     (let p1 = player\<lparr>score := score player + roll\<rparr> in
      if score p1 > targetScore gs then
        (\<lparr>su_status = G_bust, su_message = Busted_with (name_p p1) (score p1),
          newScore = score p1\<rparr>,
         gs, p1\<lparr>status := Bust\<rparr>)
      else if score p1 = targetScore gs then
        (\<lparr>su_status = G_perfect, su_message = Hit_perfect (name_p p1),
          newScore = score p1\<rparr>,
         gs\<lparr>gameOver := True, winner := Some (id_p p1)\<rparr>, p1\<lparr>status := Won\<rparr>)
      else
        (\<lparr>su_status = G_playing, su_message = Rolled (name_p p1) roll (score p1),
          newScore = score p1\<rparr>,
         gs, p1))"

text \<open>\<^verbatim>\<open>hold(player)\<close> reads the target score only; it returns the result and the player.\<close>

definition hold :: "GameState \<Rightarrow> Player \<Rightarrow> HoldResult \<times> Player" where
  "hold gs player =
     (if status player \<noteq> Active then
        (\<lparr>h_status = G_error, h_message = Cannot_hold, finalScore = None\<rparr>, player)
      else
        (let p1 = player\<lparr>status := Held\<rparr>;
             distance = targetScore gs - score p1
         in (\<lparr>h_status = G_held, h_message = Held_at (name_p p1) (score p1) distance,
              finalScore = Some (score p1)\<rparr>, p1)))"

text \<open>
  \<^verbatim>\<open>determineWinner(players)\<close> filters the array, reduces the candidates without an
  initial value (the first candidate starts as the best one) and then writes to the chosen
  object, which is still an element of \<^verbatim>\<open>players\<close>. The model works with the positions of
  the candidates in \<^verbatim>\<open>players\<close>, so that the write lands on the object the code mutates.
\<close>

definition validPlayers :: "Player list \<Rightarrow> nat list" where
  "validPlayers ps = filter (\<lambda>i. status (ps ! i) = Held \<or> status (ps ! i) = Won) [0..<length ps]"

definition better :: "Player list \<Rightarrow> nat \<Rightarrow> nat \<Rightarrow> nat" where
  "better ps best current = (if score (ps ! current) > score (ps ! best) then current else best)"

definition determineWinner :: "GameState \<Rightarrow> Player list \<Rightarrow> GameState \<times> Player list" where
  "determineWinner gs ps =
     (case validPlayers ps of
        [] \<Rightarrow> (gs\<lparr>winner := None\<rparr>, ps)
      | first # rest \<Rightarrow>
          (let w = foldl (better ps) first rest in
           (gs\<lparr>winner := Some (id_p (ps ! w))\<rparr>, ps[w := (ps ! w)\<lparr>status := Won\<rparr>])))"

definition checkGameOver :: "GameState \<Rightarrow> Player list \<Rightarrow> bool \<times> GameState \<times> Player list" where
  "checkGameOver gs ps =
     (if gameOver gs then (True, gs, ps)
      else
        (let activePlayers = filter (\<lambda>p. status p = Active) ps in
         if length activePlayers = 0 then
           (let (gs', ps') = determineWinner (gs\<lparr>gameOver := True\<rparr>) ps in (True, gs', ps'))
         else (False, gs, ps)))"

definition reset :: "GameState \<Rightarrow> GameState" where
  "reset gs = gs\<lparr>gameStarted := False, gameOver := False, winner := None\<rparr>"

definition start :: "GameState \<Rightarrow> GameState" where
  "start gs = gs\<lparr>gameStarted := True, gameOver := False, winner := None\<rparr>"

subsection \<open>GameRoom\<close>

text \<open>
  The turn cursor is a JavaScript number. It starts at 0 and is only ever assigned 0 or
  \<^verbatim>\<open>(cursor + 1) % players.length\<close>, so it is a natural number or, once the
  remainder is taken modulo an empty roster, \<^verbatim>\<open>NaN\<close>.
\<close>

datatype jsnum = Num nat | NaN

text \<open>\<^verbatim>\<open>(c + 1) % n\<close> for an array length \<open>n\<close>.\<close>

definition succ_mod :: "jsnum \<Rightarrow> nat \<Rightarrow> jsnum" where
  "succ_mod c n = (case c of NaN \<Rightarrow> NaN | Num i \<Rightarrow> if n = 0 then NaN else Num ((i + 1) mod n))"

text \<open>\<^verbatim>\<open>c >= n\<close>: every comparison with \<^verbatim>\<open>NaN\<close> is false.\<close>

definition js_ge :: "jsnum \<Rightarrow> nat \<Rightarrow> bool" where
  "js_ge c n = (case c of NaN \<Rightarrow> False | Num i \<Rightarrow> n \<le> i)"

datatype js_error = TypeError

record RoomState =
  roomId :: string
  rs_players :: "PlayerData list"
  currentTurn :: "string option"
  rs_gameStarted :: bool
  rs_gameOver :: bool
  rs_winner :: "string option"

text \<open>The transport handle \<^verbatim>\<open>io\<close> is only used to send messages and is left out.\<close>

record GameRoom =
  id_r :: string
  players :: "Player list"
  gameState :: GameState
  currentTurnIndex :: jsnum
  maxPlayers :: int
  createdAt :: nat

definition new_GameRoom :: "string \<Rightarrow> int \<Rightarrow> nat \<Rightarrow> GameRoom" where
  "new_GameRoom i maxp now =
     \<lparr>id_r = i, players = [], gameState = new_GameState, currentTurnIndex = Num 0,
      maxPlayers = maxp, createdAt = now\<rparr>"

definition addPlayer :: "GameRoom \<Rightarrow> Player \<Rightarrow> bool \<times> GameRoom" where
  "addPlayer r player =
     (if maxPlayers r \<le> int (length (players r)) then (False, r)
      else if find (\<lambda>p. id_p p = id_p player) (players r) \<noteq> None then (False, r)
      else
        (let r1 = r\<lparr>players := players r @ [player]\<rparr> in
         if 2 \<le> length (players r1) \<and> \<not> gameStarted (gameState r1)
         then (True, r1\<lparr>gameState := start (gameState r1)\<rparr>)
         else (True, r1)))"

fun findIndex :: "('a \<Rightarrow> bool) \<Rightarrow> 'a list \<Rightarrow> nat option" where
  "findIndex P [] = None"
| "findIndex P (x # xs) = (if P x then Some 0 else map_option Suc (findIndex P xs))"

text \<open>\<^verbatim>\<open>xs.splice(index, 1)\<close>\<close>

definition splice1 :: "nat \<Rightarrow> 'a list \<Rightarrow> 'a list" where
  "splice1 index xs = take index xs @ drop (Suc index) xs"

definition removePlayer :: "GameRoom \<Rightarrow> string \<Rightarrow> bool \<times> GameRoom" where
  "removePlayer r playerId =
     (case findIndex (\<lambda>p. id_p p = playerId) (players r) of
        None \<Rightarrow> (False, r)
      | Some index \<Rightarrow>
          (let r1 = r\<lparr>players := splice1 index (players r)\<rparr>;
               r2 = (if js_ge (currentTurnIndex r1) (length (players r1))
                     then r1\<lparr>currentTurnIndex := Num 0\<rparr> else r1);
               r3 = (if length (players r2) < 2
                     then r2\<lparr>gameState := (gameState r2)\<lparr>gameOver := True\<rparr>\<rparr> else r2)
           in (True, r3)))"

definition nextTurn :: "GameRoom \<Rightarrow> GameRoom" where
  "nextTurn r = r\<lparr>currentTurnIndex := succ_mod (currentTurnIndex r) (length (players r))\<rparr>"

text \<open>
  The loop of \<^verbatim>\<open>getCurrentPlayer\<close>; the first argument is the number of attempts left,
  \<^verbatim>\<open>players.length - attempts\<close>. Reading \<^verbatim>\<open>players[cursor]\<close> at \<^verbatim>\<open>NaN\<close> or
  past the end gives \<^verbatim>\<open>undefined\<close>, and \<^verbatim>\<open>undefined.status\<close> throws. The player is
  returned as its position in the roster.
\<close>

fun getCurrentPlayer_loop :: "nat \<Rightarrow> GameRoom \<Rightarrow> (js_error + nat option) \<times> GameRoom" where
  "getCurrentPlayer_loop 0 r = (Inr None, r)"
| "getCurrentPlayer_loop (Suc k) r =
     (case currentTurnIndex r of
        NaN \<Rightarrow> (Inl TypeError, r)
      | Num i \<Rightarrow>
          if i < length (players r) then
            (if status (players r ! i) = Active then (Inr (Some i), r)
             else getCurrentPlayer_loop k (nextTurn r))
          else (Inl TypeError, r))"

definition getCurrentPlayer :: "GameRoom \<Rightarrow> (js_error + nat option) \<times> GameRoom" where
  "getCurrentPlayer r =
     (if length (players r) = 0 then (Inr None, r)
      else getCurrentPlayer_loop (length (players r)) r)"

definition getPlayer :: "GameRoom \<Rightarrow> string \<Rightarrow> Player option" where
  "getPlayer r playerId = find (\<lambda>p. id_p p = playerId) (players r)"

text \<open>\<^verbatim>\<open>this.getCurrentPlayer()?.id || null\<close>: an empty id is falsy.\<close>

definition id_or_null :: "Player list \<Rightarrow> nat option \<Rightarrow> string option" where
  "id_or_null ps cur =
     (case cur of None \<Rightarrow> None
      | Some i \<Rightarrow> if id_p (ps ! i) = [] then None else Some (id_p (ps ! i)))"

definition getState :: "GameRoom \<Rightarrow> (js_error + RoomState) \<times> GameRoom" where
  "getState r =
     (let ps = map toJSON (players r) in
      case getCurrentPlayer r of
        (Inl e, r1) \<Rightarrow> (Inl e, r1)
      | (Inr cur, r1) \<Rightarrow>
          (Inr \<lparr>roomId = id_r r1, rs_players = ps, currentTurn = id_or_null (players r1) cur,
                rs_gameStarted = gameStarted (gameState r1),
                rs_gameOver = gameOver (gameState r1),
                rs_winner = winner (gameState r1)\<rparr>, r1))"

definition resetGame :: "GameRoom \<Rightarrow> GameRoom" where
  "resetGame r =
     (let r1 = r\<lparr>gameState := reset (gameState r)\<rparr>;
          r2 = r1\<lparr>players := map reset_p (players r1)\<rparr>;
          r3 = r2\<lparr>currentTurnIndex := Num 0\<rparr>
      in if 2 \<le> length (players r3) then r3\<lparr>gameState := start (gameState r3)\<rparr> else r3)"

definition isEmpty :: "GameRoom \<Rightarrow> bool" where
  "isEmpty r = (length (players r) = 0)"

subsection \<open>Sequences of calls on a room\<close>

datatype call = AddPlayer Player | RemovePlayer string | NextTurn

fun call_step :: "GameRoom \<Rightarrow> call \<Rightarrow> GameRoom" where
  "call_step r (AddPlayer p) = snd (addPlayer r p)"
| "call_step r (RemovePlayer i) = snd (removePlayer r i)"
| "call_step r NextTurn = nextTurn r"

definition calls :: "GameRoom \<Rightarrow> call list \<Rightarrow> GameRoom" where
  "calls r cs = foldl call_step r cs"

subsection \<open>The session handler's effect on a room\<close>

text \<open>
  Each handler of \<^verbatim>\<open>socketHandler.ts\<close> runs inside \<^verbatim>\<open>try/catch\<close>: an exception ends the
  handler and the room stays as it was when the exception was thrown. The functions below
  give the room after the handler; the messages sent are left out. The player id bound to
  the socket, the fresh id of a joining player and the outcome of \<^verbatim>\<open>rollDice()\<close> are
  arguments.
\<close>

definition handleJoinRoom :: "GameRoom \<Rightarrow> string \<Rightarrow> string \<Rightarrow> string \<Rightarrow> nat \<Rightarrow> GameRoom" where
  "handleJoinRoom r playerId playerName sock now =
     (if playerName = [] then r
      else
        (case addPlayer r (new_Player playerId playerName sock now) of
           (False, r1) \<Rightarrow> r1
         | (True, r1) \<Rightarrow>
             (case getState r1 of
                (Inl e, r2) \<Rightarrow> r2
              | (Inr s, r2) \<Rightarrow> snd (getState r2))))"

text \<open>What both \<^verbatim>\<open>handleRollDice\<close> and \<^verbatim>\<open>handleHold\<close> do after the move.\<close>

definition after_move :: "GameRoom \<Rightarrow> GameRoom" where
  "after_move r =
     (let (over, gs, ps) = checkGameOver (gameState r) (players r);
          r1 = r\<lparr>gameState := gs, players := ps\<rparr>
      in if over then snd (getState r1)
         else
           (case getCurrentPlayer (nextTurn r1) of
              (Inl e, r2) \<Rightarrow> r2
            | (Inr nextPlayer, r2) \<Rightarrow> snd (getState r2)))"

definition handleRollDice :: "GameRoom \<Rightarrow> string \<Rightarrow> int \<Rightarrow> GameRoom" where
  "handleRollDice r playerId roll =
     (if playerId = [] then r
      else
        (case getCurrentPlayer r of
           (Inl e, r1) \<Rightarrow> r1
         | (Inr None, r1) \<Rightarrow> r1
         | (Inr (Some i), r1) \<Rightarrow>
             if id_p (players r1 ! i) \<noteq> playerId then r1
             else
               (let (result, gs, p) = updateScore (gameState r1) (players r1 ! i) roll
                in after_move (r1\<lparr>gameState := gs, players := (players r1)[i := p]\<rparr>))))"

definition handleHold :: "GameRoom \<Rightarrow> string \<Rightarrow> GameRoom" where
  "handleHold r playerId =
     (if playerId = [] then r
      else
        (case getCurrentPlayer r of
           (Inl e, r1) \<Rightarrow> r1
         | (Inr None, r1) \<Rightarrow> r1
         | (Inr (Some i), r1) \<Rightarrow>
             if id_p (players r1 ! i) \<noteq> playerId then r1
             else
               (let (result, p) = hold (gameState r1) (players r1 ! i);
                    r2 = r1\<lparr>players := (players r1)[i := p]\<rparr>
                in (case getState r2 of
                      (Inl e, r3) \<Rightarrow> r3
                    | (Inr s, r3) \<Rightarrow> after_move r3))))"

definition handleNewGame :: "GameRoom \<Rightarrow> GameRoom" where
  "handleNewGame r = snd (getState (resetGame r))"

definition handleDisconnect :: "GameRoom \<Rightarrow> string \<Rightarrow> GameRoom" where
  "handleDisconnect r playerId =
     (if playerId = [] then r
      else
        (case getPlayer r playerId of
           None \<Rightarrow> r
         | Some player \<Rightarrow> snd (getState (snd (removePlayer r playerId)))))"

datatype event =
    JoinRoom string string string nat
  | RollDice string int
  | HoldEv string
  | NewGame
  | Disconnect string

fun handle :: "GameRoom \<Rightarrow> event \<Rightarrow> GameRoom" where
  "handle r (JoinRoom playerId playerName sock now) = handleJoinRoom r playerId playerName sock now"
| "handle r (RollDice playerId roll) = handleRollDice r playerId roll"
| "handle r (HoldEv playerId) = handleHold r playerId"
| "handle r NewGame = handleNewGame r"
| "handle r (Disconnect playerId) = handleDisconnect r playerId"

text \<open>
  The rooms the server can hold: a new room (\<^verbatim>\<open>handleCreateRoom\<close> makes one and adds its
  first player the way a join does) after any sequence of events.
\<close>

definition run :: "GameRoom \<Rightarrow> event list \<Rightarrow> GameRoom" where
  "run r evs = foldl handle r evs"

subsection \<open>Predicates used in the statements\<close>

text \<open>The filter of \<^verbatim>\<open>determineWinner\<close>.\<close>

definition candidate :: "Player \<Rightarrow> bool" where
  "candidate p = (status p = Held \<or> status p = Won)"

text \<open>
  The cursor is valid: a number that is a position of the roster, or 0 (the value it has
  in an empty room).
\<close>

definition cursor_ok :: "GameRoom \<Rightarrow> bool" where
  "cursor_ok r = (case currentTurnIndex r of NaN \<Rightarrow> False
                  | Num c \<Rightarrow> c = 0 \<or> c < length (players r))"

text \<open>
  What the event handlers preserve: a valid cursor, no winner before the game is over, and
  the target score of the constructor.
\<close>

definition room_inv :: "GameRoom \<Rightarrow> bool" where
  "room_inv r = (cursor_ok r \<and> (winner (gameState r) = None \<or> gameOver (gameState r))
                 \<and> targetScore (gameState r) = 18)"

text \<open>A sequence of calls that never calls \<^verbatim>\<open>nextTurn\<close> on an empty roster.\<close>

fun guarded :: "GameRoom \<Rightarrow> call list \<Rightarrow> bool" where
  "guarded r [] = True"
| "guarded r (c # cs) = ((c \<noteq> NextTurn \<or> players r \<noteq> []) \<and> guarded (call_step r c) cs)"

section \<open>Score update and hold\<close>

text \<open>
  C1. With the target of 18 that the constructor sets, a roll \<open>r\<close> in \<open>[1,6]\<close> on a
  player with score \<open>s\<close> leaves the score at \<open>s + r\<close>, which is not below \<open>s\<close>, and
  reports it as the new score. The result is bust exactly when \<open>s + r > 18\<close>, and then the
  player is bust; it is perfect exactly when \<open>s + r = 18\<close>, and then the player has won,
  the game is over and the winner is this player's id; otherwise it is playing and the
  player's status is as before.
\<close>

theorem updateScore_spec:
  assumes "targetScore gs = 18" and "1 \<le> r" and "r \<le> 6"
    and "updateScore gs p r = (res, gs', p')"
  shows "score p' = score p + r \<and> newScore res = score p + r \<and> score p \<le> newScore res
    \<and> (su_status res = G_bust \<longleftrightarrow> score p + r > 18)
    \<and> (su_status res = G_perfect \<longleftrightarrow> score p + r = 18)
    \<and> (su_status res = G_playing \<longleftrightarrow> score p + r < 18)
    \<and> (score p + r > 18 \<longrightarrow> status p' = Bust)
    \<and> (score p + r = 18 \<longrightarrow> status p' = Won \<and> gameOver gs' \<and> winner gs' = Some (id_p p))
    \<and> (score p + r < 18 \<longrightarrow> status p' = status p)"
  using assms by (auto simp: updateScore_def Let_def split: if_splits)

theorem updateScore_spec_witness:
  "score (snd (snd (updateScore new_GameState (new_Player ''a'' ''Alice'' ''s1'' 0) 5))) = 5
   \<and> su_status (fst (updateScore new_GameState (new_Player ''a'' ''Alice'' ''s1'' 0) 5)) = G_playing"
  using updateScore_spec [of new_GameState 5 "new_Player ''a'' ''Alice'' ''s1'' 0"
      "fst (updateScore new_GameState (new_Player ''a'' ''Alice'' ''s1'' 0) 5)"
      "fst (snd (updateScore new_GameState (new_Player ''a'' ''Alice'' ''s1'' 0) 5))"
      "snd (snd (updateScore new_GameState (new_Player ''a'' ''Alice'' ''s1'' 0) 5))"]
  by (simp add: new_GameState_def new_Player_def)

section \<open>Winner determination\<close>

text \<open>
  The reduction keeps the earliest candidate among those of greatest score: over an
  increasing list of positions, a later position replaces the best one only with a
  strictly greater score.
\<close>

lemma foldl_better:
  assumes "sorted_wrt (<) (a # xs)"
  shows "foldl (better ps) a xs \<in> set (a # xs)
    \<and> (\<forall>j\<in>set (a # xs). score (ps ! j) \<le> score (ps ! foldl (better ps) a xs))
    \<and> (\<forall>j\<in>set (a # xs). j < foldl (better ps) a xs \<longrightarrow> score (ps ! j) < score (ps ! foldl (better ps) a xs))"
  using assms
proof (induction xs rule: rev_induct)
  case Nil
  then show ?case by simp
next
  case (snoc x xs)
  let ?w = "foldl (better ps) a xs"
  from snoc.prems have srt: "sorted_wrt (<) (a # xs)" and gt: "\<forall>j\<in>set (a # xs). j < x"
    by (auto simp: sorted_wrt_append)
  note ih = snoc.IH [OF srt]
  show ?case
  proof (cases "score (ps ! x) > score (ps ! ?w)")
    case True
    then have w: "foldl (better ps) a (xs @ [x]) = x" by (simp add: better_def)
    show ?thesis unfolding w using ih True gt by auto
  next
    case False
    then have w: "foldl (better ps) a (xs @ [x]) = ?w" by (simp add: better_def)
    have "?w < x" using ih gt by blast
    then show ?thesis unfolding w using ih False by auto
  qed
qed

lemma validPlayers_set: "set (validPlayers ps) = {i. i < length ps \<and> (status (ps ! i) = Held \<or> status (ps ! i) = Won)}"
  by (auto simp: validPlayers_def)

lemma validPlayers_sorted: "sorted_wrt (<) (validPlayers ps)"
  by (simp add: validPlayers_def sorted_wrt_filter)

lemma validPlayers_Nil: "validPlayers ps = [] \<longleftrightarrow> (\<forall>p\<in>set ps. status p \<noteq> Held \<and> status p \<noteq> Won)"
proof -
  have "validPlayers ps = [] \<longleftrightarrow> set (validPlayers ps) = {}" by simp
  also have "\<dots> \<longleftrightarrow> (\<forall>i<length ps. status (ps ! i) \<noteq> Held \<and> status (ps ! i) \<noteq> Won)"
    unfolding validPlayers_set by auto
  also have "\<dots> \<longleftrightarrow> (\<forall>p\<in>set ps. status p \<noteq> Held \<and> status p \<noteq> Won)"
    by (metis in_set_conv_nth)
  finally show ?thesis .
qed

lemma determineWinner_some:
  assumes "validPlayers ps \<noteq> []"
  shows "\<exists>w<length ps. candidate (ps ! w)
      \<and> (\<forall>j<length ps. candidate (ps ! j) \<longrightarrow> score (ps ! j) \<le> score (ps ! w))
      \<and> (\<forall>j<w. candidate (ps ! j) \<longrightarrow> score (ps ! j) < score (ps ! w))
      \<and> determineWinner gs ps = (gs\<lparr>winner := Some (id_p (ps ! w))\<rparr>, ps[w := (ps ! w)\<lparr>status := Won\<rparr>])"
proof -
  from assms obtain a xs where ax: "validPlayers ps = a # xs" by (cases "validPlayers ps") auto
  define w where "w = foldl (better ps) a xs"
  have srt: "sorted_wrt (<) (a # xs)" using validPlayers_sorted [of ps] ax by simp
  have S: "set (a # xs) = {i. i < length ps \<and> candidate (ps ! i)}"
    using validPlayers_set [of ps] ax by (simp add: candidate_def)
  from foldl_better [OF srt, of ps]
  have f1: "w \<in> set (a # xs)"
    and f2: "\<forall>j\<in>set (a # xs). score (ps ! j) \<le> score (ps ! w)"
    and f3: "\<forall>j\<in>set (a # xs). j < w \<longrightarrow> score (ps ! j) < score (ps ! w)"
    unfolding w_def by blast+
  have wl: "w < length ps" and wc: "candidate (ps ! w)" using f1 S by auto
  have g2: "\<forall>j<length ps. candidate (ps ! j) \<longrightarrow> score (ps ! j) \<le> score (ps ! w)"
    using f2 S by blast
  have g3: "\<forall>j<w. candidate (ps ! j) \<longrightarrow> score (ps ! j) < score (ps ! w)"
  proof (intro allI impI)
    fix j assume "j < w" "candidate (ps ! j)"
    then have "j \<in> set (a # xs)" using S wl by auto
    with f3 \<open>j < w\<close> show "score (ps ! j) < score (ps ! w)" by blast
  qed
  have "determineWinner gs ps = (gs\<lparr>winner := Some (id_p (ps ! w))\<rparr>, ps[w := (ps ! w)\<lparr>status := Won\<rparr>])"
    by (simp add: determineWinner_def ax w_def Let_def)
  with wl wc g2 g3 show ?thesis by blast
qed

lemma determineWinner_none:
  "validPlayers ps = [] \<Longrightarrow> determineWinner gs ps = (gs\<lparr>winner := None\<rparr>, ps)"
  by (simp add: determineWinner_def)


lemma determineWinner_gameOver: "gameOver (fst (determineWinner gs ps)) = gameOver gs"
  by (simp add: determineWinner_def Let_def split: list.splits)

lemma determineWinner_length: "length (snd (determineWinner gs ps)) = length ps"
  by (simp add: determineWinner_def Let_def split: list.splits)

text \<open>
  C2. \<^verbatim>\<open>determineWinner(players)\<close> takes as candidates exactly the players whose status is
  held or won. With no candidate it sets the winner to none and changes no player.
  Otherwise it picks a candidate \<open>w\<close> whose score no candidate exceeds and that every
  earlier candidate is strictly below (the first of the best), sets the winner to the id
  of \<open>w\<close> and sets the status of \<open>w\<close> to won, whatever it was. Two held players A and B
  with 16 each give A; two bust players with 19 and 20 give no winner.
\<close>

theorem determineWinner_spec:
  "(if \<forall>p\<in>set ps. status p \<noteq> Held \<and> status p \<noteq> Won
    then determineWinner gs ps = (gs\<lparr>winner := None\<rparr>, ps)
    else \<exists>w<length ps. (status (ps ! w) = Held \<or> status (ps ! w) = Won)
      \<and> (\<forall>j<length ps. status (ps ! j) = Held \<or> status (ps ! j) = Won
            \<longrightarrow> score (ps ! j) \<le> score (ps ! w))
      \<and> (\<forall>j<w. status (ps ! j) = Held \<or> status (ps ! j) = Won
            \<longrightarrow> score (ps ! j) < score (ps ! w))
      \<and> determineWinner gs ps
          = (gs\<lparr>winner := Some (id_p (ps ! w))\<rparr>, ps[w := (ps ! w)\<lparr>status := Won\<rparr>]))
   \<and> winner (fst (determineWinner gs
        [\<lparr>id_p = ''A'', name_p = na, socketId = sa, score = 16, status = Held, joinedAt = ta\<rparr>,
         \<lparr>id_p = ''B'', name_p = nb, socketId = sb, score = 16, status = Held, joinedAt = tb\<rparr>]))
      = Some ''A''
   \<and> winner (fst (determineWinner gs
        [\<lparr>id_p = ''A'', name_p = na, socketId = sa, score = 19, status = Bust, joinedAt = ta\<rparr>,
         \<lparr>id_p = ''B'', name_p = nb, socketId = sb, score = 20, status = Bust, joinedAt = tb\<rparr>]))
      = None"
proof (intro conjI)
  show "if \<forall>p\<in>set ps. status p \<noteq> Held \<and> status p \<noteq> Won
    then determineWinner gs ps = (gs\<lparr>winner := None\<rparr>, ps)
    else \<exists>w<length ps. (status (ps ! w) = Held \<or> status (ps ! w) = Won)
      \<and> (\<forall>j<length ps. status (ps ! j) = Held \<or> status (ps ! j) = Won
            \<longrightarrow> score (ps ! j) \<le> score (ps ! w))
      \<and> (\<forall>j<w. status (ps ! j) = Held \<or> status (ps ! j) = Won
            \<longrightarrow> score (ps ! j) < score (ps ! w))
      \<and> determineWinner gs ps
          = (gs\<lparr>winner := Some (id_p (ps ! w))\<rparr>, ps[w := (ps ! w)\<lparr>status := Won\<rparr>])"
  proof (cases "validPlayers ps = []")
    case True
    then show ?thesis
      using determineWinner_none [OF True, of gs] by (simp add: validPlayers_Nil)
  next
    case False
    then have nc: "\<not> (\<forall>p\<in>set ps. status p \<noteq> Held \<and> status p \<noteq> Won)"
      by (simp add: validPlayers_Nil)
    from determineWinner_some [OF False, of gs, unfolded candidate_def] show ?thesis
      by (simp only: nc if_False)
  qed
next
  show "winner (fst (determineWinner gs
        [\<lparr>id_p = ''A'', name_p = na, socketId = sa, score = 16, status = Held, joinedAt = ta\<rparr>,
         \<lparr>id_p = ''B'', name_p = nb, socketId = sb, score = 16, status = Held, joinedAt = tb\<rparr>]))
      = Some ''A''"
    by (simp add: determineWinner_def validPlayers_def better_def upt_rec)
next
  show "winner (fst (determineWinner gs
        [\<lparr>id_p = ''A'', name_p = na, socketId = sa, score = 19, status = Bust, joinedAt = ta\<rparr>,
         \<lparr>id_p = ''B'', name_p = nb, socketId = sb, score = 20, status = Bust, joinedAt = tb\<rparr>]))
      = None"
    by (simp add: determineWinner_def validPlayers_def better_def upt_rec)
qed

theorem determineWinner_spec_witness:
  "\<not> (\<forall>p\<in>set [\<lparr>id_p = ''A'', name_p = ''Ann'', socketId = ''s1'', score = 15, status = Held, joinedAt = 0\<rparr>].
        status p \<noteq> Held \<and> status p \<noteq> Won)
   \<and> determineWinner new_GameState
        [\<lparr>id_p = ''A'', name_p = ''Ann'', socketId = ''s1'', score = 15, status = Held, joinedAt = 0\<rparr>]
     = (new_GameState\<lparr>winner := Some ''A''\<rparr>,
        [\<lparr>id_p = ''A'', name_p = ''Ann'', socketId = ''s1'', score = 15, status = Won, joinedAt = 0\<rparr>])"
  using determineWinner_spec [of
        "[\<lparr>id_p = ''A'', name_p = ''Ann'', socketId = ''s1'', score = 15, status = Held, joinedAt = 0\<rparr>]"
        new_GameState]
  by simp

section \<open>End of the round\<close>

text \<open>
  C5. \<^verbatim>\<open>checkGameOver(players)\<close> returns true and changes nothing when the game is
  already over. Otherwise, when no player is active, it sets \<open>gameOver\<close>, runs
  \<^verbatim>\<open>determineWinner\<close> on the players and returns true; when some player is active it
  returns false and changes nothing.
\<close>

theorem checkGameOver_spec:
  "(gameOver gs \<longrightarrow> checkGameOver gs ps = (True, gs, ps))
   \<and> (\<not> gameOver gs \<and> (\<forall>p\<in>set ps. status p \<noteq> Active) \<longrightarrow>
        checkGameOver gs ps = (True, determineWinner (gs\<lparr>gameOver := True\<rparr>) ps)
        \<and> gameOver (fst (snd (checkGameOver gs ps))))
   \<and> (\<not> gameOver gs \<and> (\<exists>p\<in>set ps. status p = Active) \<longrightarrow>
        checkGameOver gs ps = (False, gs, ps))"
proof (intro conjI impI)
  assume "gameOver gs"
  then show "checkGameOver gs ps = (True, gs, ps)" by (simp add: checkGameOver_def)
next
  assume a: "\<not> gameOver gs \<and> (\<forall>p\<in>set ps. status p \<noteq> Active)"
  then have "filter (\<lambda>p. status p = Active) ps = []" by (simp add: filter_empty_conv)
  with a show eq: "checkGameOver gs ps = (True, determineWinner (gs\<lparr>gameOver := True\<rparr>) ps)"
    by (simp add: checkGameOver_def split: prod.splits)
  show "gameOver (fst (snd (checkGameOver gs ps)))"
    unfolding eq by (simp add: determineWinner_gameOver)
next
  assume a: "\<not> gameOver gs \<and> (\<exists>p\<in>set ps. status p = Active)"
  then have "filter (\<lambda>p. status p = Active) ps \<noteq> []" by (simp add: filter_empty_conv)
  with a show "checkGameOver gs ps = (False, gs, ps)"
    by (simp add: checkGameOver_def)
qed

theorem checkGameOver_spec_witness:
  "checkGameOver (new_GameState\<lparr>gameOver := True\<rparr>) [new_Player ''a'' ''Ann'' ''s1'' 0]
     = (True, new_GameState\<lparr>gameOver := True\<rparr>, [new_Player ''a'' ''Ann'' ''s1'' 0])
   \<and> checkGameOver new_GameState [new_Player ''a'' ''Ann'' ''s1'' 0]
     = (False, new_GameState, [new_Player ''a'' ''Ann'' ''s1'' 0])
   \<and> checkGameOver new_GameState [(new_Player ''a'' ''Ann'' ''s1'' 0)\<lparr>status := Bust\<rparr>]
     = (True, determineWinner (new_GameState\<lparr>gameOver := True\<rparr>)
               [(new_Player ''a'' ''Ann'' ''s1'' 0)\<lparr>status := Bust\<rparr>])"
  using checkGameOver_spec [of "new_GameState\<lparr>gameOver := True\<rparr>" "[new_Player ''a'' ''Ann'' ''s1'' 0]"]
    checkGameOver_spec [of new_GameState "[new_Player ''a'' ''Ann'' ''s1'' 0]"]
    checkGameOver_spec [of new_GameState "[(new_Player ''a'' ''Ann'' ''s1'' 0)\<lparr>status := Bust\<rparr>]"]
  by (simp add: new_GameState_def new_Player_def)

text \<open>
  C6. \<^verbatim>\<open>hold(player)\<close> always returns a result. The result is an error exactly when the
  player is not active, and then the player (score and status) is as before. For an
  active player the status becomes held, the result is held and its final score is the
  player's score.
\<close>

theorem hold_spec:
  "(h_status (fst (hold gs p)) = G_error \<longleftrightarrow> status p \<noteq> Active)
   \<and> (status p \<noteq> Active \<longrightarrow> snd (hold gs p) = p)
   \<and> (status p = Active \<longrightarrow>
        h_status (fst (hold gs p)) = G_held
        \<and> finalScore (fst (hold gs p)) = Some (score p)
        \<and> snd (hold gs p) = p\<lparr>status := Held\<rparr>)"
  by (simp add: hold_def Let_def)

theorem hold_spec_witness:
  "h_status (fst (hold new_GameState ((new_Player ''a'' ''Ann'' ''s1'' 0)\<lparr>status := Bust\<rparr>))) = G_error
   \<and> snd (hold new_GameState ((new_Player ''a'' ''Ann'' ''s1'' 0)\<lparr>status := Bust\<rparr>))
       = (new_Player ''a'' ''Ann'' ''s1'' 0)\<lparr>status := Bust\<rparr>
   \<and> finalScore (fst (hold new_GameState (new_Player ''a'' ''Ann'' ''s1'' 0))) = Some 0
   \<and> status (snd (hold new_GameState (new_Player ''a'' ''Ann'' ''s1'' 0))) = Held"
  using hold_spec [of new_GameState "(new_Player ''a'' ''Ann'' ''s1'' 0)\<lparr>status := Bust\<rparr>"]
    hold_spec [of new_GameState "new_Player ''a'' ''Ann'' ''s1'' 0"]
  by (simp add: new_Player_def)

text \<open>
  C10. \<^verbatim>\<open>updateScore\<close> looks at neither the player's status nor \<open>gameOver\<close>: with the
  target of 18, whatever the status of the player and the state of the game, the roll is
  added to the score, and a resulting score of 18 makes this player's id the winner,
  whatever the winner was.
\<close>

theorem updateScore_no_precondition:
  assumes "targetScore gs = 18"
  shows "score (snd (snd (updateScore gs p roll))) = score p + roll
    \<and> (score p + roll = 18 \<longrightarrow> winner (fst (snd (updateScore gs p roll))) = Some (id_p p))"
  using assms by (simp add: updateScore_def Let_def)

theorem updateScore_no_precondition_witness:
  "targetScore (new_GameState\<lparr>gameOver := True, winner := Some ''b''\<rparr>) = 18
   \<and> score (snd (snd (updateScore (new_GameState\<lparr>gameOver := True, winner := Some ''b''\<rparr>)
        ((new_Player ''a'' ''Ann'' ''s1'' 0)\<lparr>score := 12, status := Held\<rparr>) 6))) = 18
   \<and> winner (fst (snd (updateScore (new_GameState\<lparr>gameOver := True, winner := Some ''b''\<rparr>)
        ((new_Player ''a'' ''Ann'' ''s1'' 0)\<lparr>score := 12, status := Held\<rparr>) 6))) = Some ''a''"
  using updateScore_no_precondition [of "new_GameState\<lparr>gameOver := True, winner := Some ''b''\<rparr>"
      "(new_Player ''a'' ''Ann'' ''s1'' 0)\<lparr>score := 12, status := Held\<rparr>" 6]
  by (simp add: new_GameState_def new_Player_def)

section \<open>Joining and leaving a room\<close>

lemma findIndex_None: "findIndex P xs = None \<longleftrightarrow> (\<forall>x\<in>set xs. \<not> P x)"
  by (induction xs) auto

lemma findIndex_Some:
  "findIndex P xs = Some k \<Longrightarrow> k < length xs \<and> P (xs ! k) \<and> (\<forall>j<k. \<not> P (xs ! j))"
proof (induction xs arbitrary: k)
  case Nil
  then show ?case by simp
next
  case (Cons x xs)
  show ?case
  proof (cases "P x")
    case True
    with Cons.prems show ?thesis by simp
  next
    case False
    with Cons.prems obtain k' where k': "findIndex P xs = Some k'" "k = Suc k'" by auto
    from Cons.IH [OF k'(1)] False k'(2) show ?thesis
      by (auto simp: less_Suc_eq_0_disj)
  qed
qed

text \<open>
  C7. \<^verbatim>\<open>addPlayer(player)\<close> returns false and leaves the room as it is when the roster
  holds \<open>maxPlayers\<close> players (or more) or when a roster member has the player's id.
  Otherwise it returns true, the player is the new last element of the roster, and the
  game state is the result of \<^verbatim>\<open>start()\<close> exactly when the roster now has at least two
  players and the game had not started; in every other case the game state is untouched.
\<close>

theorem addPlayer_spec:
  "(maxPlayers r \<le> int (length (players r)) \<or> (\<exists>q\<in>set (players r). id_p q = id_p p)
      \<longrightarrow> addPlayer r p = (False, r))
   \<and> (int (length (players r)) < maxPlayers r \<and> (\<forall>q\<in>set (players r). id_p q \<noteq> id_p p)
      \<longrightarrow> addPlayer r p =
            (True, r\<lparr>players := players r @ [p],
                     gameState := (if 2 \<le> length (players r) + 1 \<and> \<not> gameStarted (gameState r)
                                   then start (gameState r) else gameState r)\<rparr>))"
  by (auto simp: addPlayer_def Let_def find_None_iff)

theorem addPlayer_spec_witness:
  "addPlayer ((new_GameRoom ''r'' 4 0)\<lparr>players := [new_Player ''a'' ''Ann'' ''s1'' 1]\<rparr>)
      (new_Player ''b'' ''Bob'' ''s2'' 2)
     = (True, (new_GameRoom ''r'' 4 0)
          \<lparr>players := [new_Player ''a'' ''Ann'' ''s1'' 1, new_Player ''b'' ''Bob'' ''s2'' 2],
           gameState := start new_GameState\<rparr>)
   \<and> addPlayer ((new_GameRoom ''r'' 4 0)\<lparr>players := [new_Player ''a'' ''Ann'' ''s1'' 1]\<rparr>)
      (new_Player ''a'' ''Al'' ''s3'' 3)
     = (False, (new_GameRoom ''r'' 4 0)\<lparr>players := [new_Player ''a'' ''Ann'' ''s1'' 1]\<rparr>)
   \<and> addPlayer ((new_GameRoom ''r'' 1 0)\<lparr>players := [new_Player ''a'' ''Ann'' ''s1'' 1]\<rparr>)
      (new_Player ''b'' ''Bob'' ''s2'' 2)
     = (False, (new_GameRoom ''r'' 1 0)\<lparr>players := [new_Player ''a'' ''Ann'' ''s1'' 1]\<rparr>)"
  using addPlayer_spec [of "(new_GameRoom ''r'' 4 0)\<lparr>players := [new_Player ''a'' ''Ann'' ''s1'' 1]\<rparr>"
      "new_Player ''b'' ''Bob'' ''s2'' 2"]
    addPlayer_spec [of "(new_GameRoom ''r'' 4 0)\<lparr>players := [new_Player ''a'' ''Ann'' ''s1'' 1]\<rparr>"
      "new_Player ''a'' ''Al'' ''s3'' 3"]
    addPlayer_spec [of "(new_GameRoom ''r'' 1 0)\<lparr>players := [new_Player ''a'' ''Ann'' ''s1'' 1]\<rparr>"
      "new_Player ''b'' ''Bob'' ''s2'' 2"]
  by (simp add: new_GameRoom_def new_Player_def new_GameState_def)

text \<open>
  C8. \<^verbatim>\<open>removePlayer(playerId)\<close> returns false and leaves the room as it is when no
  roster member has that id. Otherwise it returns true and removes the first (with unique
  ids: the only) member \<open>k\<close> with that id, the others keeping their order; the cursor
  becomes 0 when it is at or past the new length (\<^verbatim>\<open>cursor >= players.length\<close>) and
  is kept otherwise; \<open>gameOver\<close> is set when fewer than two players remain; nothing else
  changes, so no winner is determined: the winner field and every remaining player are as
  before.
\<close>

theorem removePlayer_spec:
  "((\<forall>q\<in>set (players r). id_p q \<noteq> i) \<longrightarrow> removePlayer r i = (False, r))
   \<and> ((\<exists>q\<in>set (players r). id_p q = i) \<longrightarrow>
        (\<exists>k<length (players r). id_p (players r ! k) = i
           \<and> (\<forall>j<k. id_p (players r ! j) \<noteq> i)
           \<and> removePlayer r i =
               (True, r\<lparr>players := take k (players r) @ drop (Suc k) (players r),
                        currentTurnIndex :=
                          (if js_ge (currentTurnIndex r) (length (players r) - 1)
                           then Num 0 else currentTurnIndex r),
                        gameState :=
                          (if length (players r) - 1 < 2
                           then (gameState r)\<lparr>gameOver := True\<rparr> else gameState r)\<rparr>)))
   \<and> winner (gameState (snd (removePlayer r i))) = winner (gameState r)
   \<and> (\<forall>c. currentTurnIndex r = Num c \<and> fst (removePlayer r i) \<longrightarrow>
         currentTurnIndex (snd (removePlayer r i))
           = Num (if length (players (snd (removePlayer r i))) \<le> c then 0 else c))"
proof (cases "findIndex (\<lambda>p. id_p p = i) (players r)")
  case None
  then have no: "\<forall>q\<in>set (players r). id_p q \<noteq> i" by (simp add: findIndex_None)
  have "removePlayer r i = (False, r)" using None by (simp add: removePlayer_def)
  with no show ?thesis by simp
next
  case (Some k)
  from findIndex_Some [OF Some]
  have k: "k < length (players r)" "id_p (players r ! k) = i" "\<forall>j<k. id_p (players r ! j) \<noteq> i"
    by auto
  have ex: "\<exists>q\<in>set (players r). id_p q = i" using k(1,2) nth_mem by blast
  have len: "length (take k (players r) @ drop (Suc k) (players r)) = length (players r) - 1"
    using k(1) by simp
  have eq: "removePlayer r i =
               (True, r\<lparr>players := take k (players r) @ drop (Suc k) (players r),
                        currentTurnIndex :=
                          (if js_ge (currentTurnIndex r) (length (players r) - 1)
                           then Num 0 else currentTurnIndex r),
                        gameState :=
                          (if length (players r) - 1 < 2
                           then (gameState r)\<lparr>gameOver := True\<rparr> else gameState r)\<rparr>)"
    using Some len by (simp add: removePlayer_def splice1_def Let_def)
  show ?thesis
  proof (intro conjI)
    show "(\<forall>q\<in>set (players r). id_p q \<noteq> i) \<longrightarrow> removePlayer r i = (False, r)"
      using ex by blast
    show "(\<exists>q\<in>set (players r). id_p q = i) \<longrightarrow>
        (\<exists>k<length (players r). id_p (players r ! k) = i
           \<and> (\<forall>j<k. id_p (players r ! j) \<noteq> i)
           \<and> removePlayer r i =
               (True, r\<lparr>players := take k (players r) @ drop (Suc k) (players r),
                        currentTurnIndex :=
                          (if js_ge (currentTurnIndex r) (length (players r) - 1)
                           then Num 0 else currentTurnIndex r),
                        gameState :=
                          (if length (players r) - 1 < 2
                           then (gameState r)\<lparr>gameOver := True\<rparr> else gameState r)\<rparr>))"
      using k eq by blast
    show "winner (gameState (snd (removePlayer r i))) = winner (gameState r)"
      unfolding eq by simp
    show "\<forall>c. currentTurnIndex r = Num c \<and> fst (removePlayer r i) \<longrightarrow>
         currentTurnIndex (snd (removePlayer r i))
           = Num (if length (players (snd (removePlayer r i))) \<le> c then 0 else c)"
      unfolding eq using len by (simp add: js_ge_def)
  qed
qed

theorem removePlayer_spec_witness:
  "removePlayer ((new_GameRoom ''r'' 4 0)\<lparr>players := [new_Player ''a'' ''Ann'' ''s1'' 1]\<rparr>) ''a''
     = (True, (new_GameRoom ''r'' 4 0)\<lparr>gameState := new_GameState\<lparr>gameOver := True\<rparr>\<rparr>)
   \<and> removePlayer ((new_GameRoom ''r'' 4 0)\<lparr>players := [new_Player ''a'' ''Ann'' ''s1'' 1]\<rparr>) ''z''
     = (False, (new_GameRoom ''r'' 4 0)\<lparr>players := [new_Player ''a'' ''Ann'' ''s1'' 1]\<rparr>)"
  using removePlayer_spec [of "(new_GameRoom ''r'' 4 0)\<lparr>players := [new_Player ''a'' ''Ann'' ''s1'' 1]\<rparr>" "''a''"]
    removePlayer_spec [of "(new_GameRoom ''r'' 4 0)\<lparr>players := [new_Player ''a'' ''Ann'' ''s1'' 1]\<rparr>" "''z''"]
  by (simp add: new_GameRoom_def new_Player_def new_GameState_def js_ge_def)

section \<open>The turn cursor\<close>

text \<open>
  From a cursor inside the roster, \<open>k\<close> rounds of the loop either stop at an active
  player or pass \<open>k\<close> players that are not active and leave the cursor \<open>k\<close> places
  further, modulo the length of the roster.
\<close>

lemma set_cursor_same: "currentTurnIndex r = c \<Longrightarrow> r\<lparr>currentTurnIndex := c\<rparr> = r"
  by (cases r) simp

lemma nextTurn_Num:
  "currentTurnIndex r = Num c \<Longrightarrow> players r \<noteq> [] \<Longrightarrow>
   nextTurn r = r\<lparr>currentTurnIndex := Num (Suc c mod length (players r))\<rparr>"
  by (simp add: nextTurn_def succ_mod_def)

lemma loop_result:
  assumes "currentTurnIndex r = Num c" and "c < length (players r)"
  shows "\<exists>c'<length (players r).
     snd (getCurrentPlayer_loop k r) = r\<lparr>currentTurnIndex := Num c'\<rparr>
     \<and> (fst (getCurrentPlayer_loop k r) = Inr (Some c') \<and> status (players r ! c') = Active
        \<or> fst (getCurrentPlayer_loop k r) = Inr None
          \<and> c' = (c + k) mod length (players r)
          \<and> (\<forall>j<k. status (players r ! ((c + j) mod length (players r))) \<noteq> Active))"
  using assms
proof (induction k arbitrary: r c)
  case 0
  then show ?case by (simp add: set_cursor_same)
next
  case (Suc k)
  let ?n = "length (players r)"
  show ?case
  proof (cases "status (players r ! c) = Active")
    case True
    with Suc.prems show ?thesis by (auto simp: set_cursor_same)
  next
    case False
    from Suc.prems have ne: "players r \<noteq> []" by auto
    let ?r1 = "r\<lparr>currentTurnIndex := Num (Suc c mod ?n)\<rparr>"
    have nt: "nextTurn r = ?r1" using nextTurn_Num [OF Suc.prems(1) ne] .
    have step: "getCurrentPlayer_loop (Suc k) r = getCurrentPlayer_loop k ?r1"
      using Suc.prems False nt by simp
    have c1: "currentTurnIndex ?r1 = Num (Suc c mod ?n)" by simp
    have l1: "Suc c mod ?n < length (players ?r1)" using ne by simp
    from Suc.IH [OF c1 l1] obtain c' where c': "c' < ?n"
      "snd (getCurrentPlayer_loop k ?r1) = r\<lparr>currentTurnIndex := Num c'\<rparr>"
      "fst (getCurrentPlayer_loop k ?r1) = Inr (Some c') \<and> status (players r ! c') = Active
        \<or> fst (getCurrentPlayer_loop k ?r1) = Inr None
          \<and> c' = (Suc c mod ?n + k) mod ?n
          \<and> (\<forall>j<k. status (players r ! ((Suc c mod ?n + j) mod ?n)) \<noteq> Active)"
      by auto
    have m: "\<And>j. (Suc c mod ?n + j) mod ?n = (c + Suc j) mod ?n"
      by (simp add: mod_add_left_eq)
    have all: "(\<forall>j<k. status (players r ! ((Suc c mod ?n + j) mod ?n)) \<noteq> Active)
        \<Longrightarrow> (\<forall>j<Suc k. status (players r ! ((c + j) mod ?n)) \<noteq> Active)"
    proof (intro allI impI)
      fix j assume a: "\<forall>j<k. status (players r ! ((Suc c mod ?n + j) mod ?n)) \<noteq> Active" and j: "j < Suc k"
      show "status (players r ! ((c + j) mod ?n)) \<noteq> Active"
      proof (cases j)
        case 0
        then show ?thesis using False Suc.prems(2) by simp
      next
        case (Suc j')
        then have "j' < k" using j by simp
        with a have "status (players r ! ((Suc c mod ?n + j') mod ?n)) \<noteq> Active" by blast
        then show ?thesis unfolding m Suc .
      qed
    qed
    show ?thesis unfolding step using c' all m by auto
  qed
qed


text \<open>A full lap from any position visits every position.\<close>

lemma lap_covers:
  assumes "c < n" and "i < n"
  shows "\<exists>j<n. (c + j) mod n = (i::nat)"
proof (intro exI conjI)
  show "(i + n - c) mod n < n" using assms by simp
  have "(c + (i + n - c) mod n) mod n = (c + (i + n - c)) mod n"
    by (simp add: mod_add_right_eq)
  also have "\<dots> = (i + n) mod n" using assms by simp
  also have "\<dots> = i" using assms by simp
  finally show "(c + (i + n - c) mod n) mod n = i" .
qed

text \<open>
  With a valid cursor \<^verbatim>\<open>getCurrentPlayer\<close> returns normally, changes nothing but the
  cursor, and returns an active member on which the cursor then stands, or none when no
  member is active, the cursor being back where it was.
\<close>

lemma getCurrentPlayer_ok:
  assumes "cursor_ok r"
  shows "\<exists>v c'. getCurrentPlayer r = (Inr v, r\<lparr>currentTurnIndex := Num c'\<rparr>)
     \<and> cursor_ok (r\<lparr>currentTurnIndex := Num c'\<rparr>)
     \<and> (case v of
          Some i \<Rightarrow> i = c' \<and> i < length (players r) \<and> status (players r ! i) = Active
        | None \<Rightarrow> currentTurnIndex r = Num c' \<and> (\<forall>p\<in>set (players r). status p \<noteq> Active))"
proof -
  from assms obtain c where c: "currentTurnIndex r = Num c" "c = 0 \<or> c < length (players r)"
    by (auto simp: cursor_ok_def split: jsnum.splits)
  show ?thesis
  proof (cases "players r = []")
    case True
    then have "getCurrentPlayer r = (Inr None, r\<lparr>currentTurnIndex := Num c\<rparr>)"
      using c by (simp add: getCurrentPlayer_def set_cursor_same)
    moreover have "cursor_ok (r\<lparr>currentTurnIndex := Num c\<rparr>)"
      using True c by (simp add: cursor_ok_def)
    ultimately show ?thesis using True c by auto
  next
    case False
    let ?n = "length (players r)"
    from False c have lt: "c < ?n" by auto
    have g: "getCurrentPlayer r = getCurrentPlayer_loop ?n r"
      using False by (simp add: getCurrentPlayer_def)
    from loop_result [OF c(1) lt, of ?n] obtain c' where c': "c' < ?n"
      "snd (getCurrentPlayer_loop ?n r) = r\<lparr>currentTurnIndex := Num c'\<rparr>"
      "fst (getCurrentPlayer_loop ?n r) = Inr (Some c') \<and> status (players r ! c') = Active
        \<or> fst (getCurrentPlayer_loop ?n r) = Inr None
          \<and> c' = (c + ?n) mod ?n
          \<and> (\<forall>j<?n. status (players r ! ((c + j) mod ?n)) \<noteq> Active)"
      by blast
    have ok: "cursor_ok (r\<lparr>currentTurnIndex := Num c'\<rparr>)"
      using c'(1) by (simp add: cursor_ok_def)
    from c'(3) show ?thesis
    proof
      assume a: "fst (getCurrentPlayer_loop ?n r) = Inr (Some c') \<and> status (players r ! c') = Active"
      then have "getCurrentPlayer r = (Inr (Some c'), r\<lparr>currentTurnIndex := Num c'\<rparr>)"
        using g c'(2) by (simp add: prod_eq_iff)
      with ok a c'(1) show ?thesis by auto
    next
      assume a: "fst (getCurrentPlayer_loop ?n r) = Inr None
          \<and> c' = (c + ?n) mod ?n
          \<and> (\<forall>j<?n. status (players r ! ((c + j) mod ?n)) \<noteq> Active)"
      then have cc: "c' = c" using lt by simp
      have none: "\<forall>p\<in>set (players r). status p \<noteq> Active"
      proof
        fix p assume "p \<in> set (players r)"
        then obtain i where i: "i < ?n" "p = players r ! i" by (auto simp: in_set_conv_nth)
        from lap_covers [OF lt i(1)] obtain j where "j < ?n" "(c + j) mod ?n = i" by blast
        with a i(2) show "status p \<noteq> Active" by auto
      qed
      from a have "getCurrentPlayer r = (Inr None, r\<lparr>currentTurnIndex := Num c'\<rparr>)"
        using g c'(2) by (simp add: prod_eq_iff)
      with ok none cc c(1) show ?thesis by auto
    qed
  qed
qed

lemma getCurrentPlayer_again:
  assumes "cursor_ok r" and "getCurrentPlayer r = (Inr v, r')"
  shows "getCurrentPlayer r' = (Inr v, r')"
proof -
  from getCurrentPlayer_ok [OF assms(1)] assms(2) obtain c' where
    r': "r' = r\<lparr>currentTurnIndex := Num c'\<rparr>"
    and v: "case v of
          Some i \<Rightarrow> i = c' \<and> i < length (players r) \<and> status (players r ! i) = Active
        | None \<Rightarrow> currentTurnIndex r = Num c' \<and> (\<forall>p\<in>set (players r). status p \<noteq> Active)"
    by auto
  show ?thesis
  proof (cases v)
    case None
    with v have "r' = r" unfolding r' by (simp add: set_cursor_same)
    with assms(2) show ?thesis by simp
  next
    case (Some i)
    with v have i: "i = c'" "i < length (players r)" "status (players r ! i) = Active" by auto
    then obtain m where m: "length (players r) = Suc m" by (cases "length (players r)") auto
    show ?thesis unfolding r' Some using i m by (simp add: getCurrentPlayer_def)
  qed
qed

lemma getState_ok:
  assumes "cursor_ok r"
  shows "\<exists>s c'. getState r = (Inr s, r\<lparr>currentTurnIndex := Num c'\<rparr>)
     \<and> cursor_ok (r\<lparr>currentTurnIndex := Num c'\<rparr>)"
proof -
  from getCurrentPlayer_ok [OF assms] obtain v c' where
    "getCurrentPlayer r = (Inr v, r\<lparr>currentTurnIndex := Num c'\<rparr>)"
    "cursor_ok (r\<lparr>currentTurnIndex := Num c'\<rparr>)" by blast
  then show ?thesis by (auto simp: getState_def)
qed

lemma getState_again:
  assumes "cursor_ok r" and "getState r = (Inr s, r')"
  shows "getState r' = (Inr s, r')"
proof -
  from getCurrentPlayer_ok [OF assms(1)] obtain v c' where
    g: "getCurrentPlayer r = (Inr v, r\<lparr>currentTurnIndex := Num c'\<rparr>)" by blast
  with assms(2) have r': "r' = r\<lparr>currentTurnIndex := Num c'\<rparr>"
    and s: "s = \<lparr>roomId = id_r r', rs_players = map toJSON (players r),
                currentTurn = id_or_null (players r') v,
                rs_gameStarted = gameStarted (gameState r'),
                rs_gameOver = gameOver (gameState r'),
                rs_winner = winner (gameState r')\<rparr>"
    by (auto simp: getState_def)
  from getCurrentPlayer_again [OF assms(1) g] have "getCurrentPlayer r' = (Inr v, r')"
    unfolding r' .
  then show ?thesis unfolding s by (simp add: getState_def r')
qed


section \<open>What every event preserves\<close>

lemma room_inv_new: "room_inv (new_GameRoom rid maxp now)"
  by (simp add: room_inv_def cursor_ok_def new_GameRoom_def new_GameState_def)

lemma room_inv_getState:
  assumes "room_inv r"
  shows "room_inv (snd (getState r)) \<and> players (snd (getState r)) = players r"
proof -
  from assms have "cursor_ok r" by (simp add: room_inv_def)
  from getState_ok [OF this] obtain s c' where
    "getState r = (Inr s, r\<lparr>currentTurnIndex := Num c'\<rparr>)"
    "cursor_ok (r\<lparr>currentTurnIndex := Num c'\<rparr>)" by blast
  with assms show ?thesis by (simp add: room_inv_def)
qed

lemma room_inv_addPlayer: "room_inv r \<Longrightarrow> room_inv (snd (addPlayer r p))"
  by (auto simp: room_inv_def cursor_ok_def addPlayer_def Let_def start_def split: jsnum.splits)

lemma room_inv_removePlayer: "room_inv r \<Longrightarrow> room_inv (snd (removePlayer r i))"
  by (auto simp: room_inv_def cursor_ok_def removePlayer_def Let_def js_ge_def
      split: jsnum.splits option.splits)

lemma room_inv_resetGame: "room_inv r \<Longrightarrow> room_inv (resetGame r)"
  by (simp add: room_inv_def cursor_ok_def resetGame_def Let_def reset_def start_def)

lemma determineWinner_targetScore: "targetScore (fst (determineWinner gs ps)) = targetScore gs"
  by (simp add: determineWinner_def Let_def split: list.splits)

lemma checkGameOver_keeps:
  assumes "winner gs = None \<or> gameOver gs"
  shows "(winner (fst (snd (checkGameOver gs ps))) = None \<or> gameOver (fst (snd (checkGameOver gs ps))))
    \<and> length (snd (snd (checkGameOver gs ps))) = length ps
    \<and> targetScore (fst (snd (checkGameOver gs ps))) = targetScore gs"
proof (cases "gameOver gs")
  case True
  then show ?thesis by (simp add: checkGameOver_def)
next
  case False
  show ?thesis
  proof (cases "filter (\<lambda>p. status p = Active) ps = []")
    case True
    with False have "checkGameOver gs ps = (True, determineWinner (gs\<lparr>gameOver := True\<rparr>) ps)"
      by (simp add: checkGameOver_def split: prod.splits)
    then show ?thesis
      by (simp add: determineWinner_gameOver determineWinner_length determineWinner_targetScore)
  next
    case f: False
    with False assms show ?thesis by (simp add: checkGameOver_def)
  qed
qed

lemma room_inv_after_move:
  assumes "room_inv r" and "players r \<noteq> []"
  shows "room_inv (after_move r)"
proof -
  obtain over gs ps where ck: "checkGameOver (gameState r) (players r) = (over, gs, ps)"
    by (cases "checkGameOver (gameState r) (players r)") auto
  from assms(1) have w: "winner (gameState r) = None \<or> gameOver (gameState r)"
    and co: "cursor_ok r" and ts: "targetScore (gameState r) = 18" by (simp_all add: room_inv_def)
  from checkGameOver_keeps [OF w, of "players r"] ck ts
  have gs: "winner gs = None \<or> gameOver gs" and len: "length ps = length (players r)"
    and ts': "targetScore gs = 18" by simp_all
  let ?r1 = "r\<lparr>gameState := gs, players := ps\<rparr>"
  have ne: "ps \<noteq> []" using len assms(2) by auto
  have inv1: "room_inv ?r1"
    using co gs ts' len ne assms(2) by (auto simp: room_inv_def cursor_ok_def split: jsnum.splits)
  show ?thesis
  proof (cases over)
    case True
    then have "after_move r = snd (getState ?r1)" using ck by (simp add: after_move_def)
    then show ?thesis using room_inv_getState [OF inv1] by simp
  next
    case False
    from inv1 obtain c where c: "currentTurnIndex ?r1 = Num c"
      by (auto simp: room_inv_def cursor_ok_def split: jsnum.splits)
    have ne1: "players ?r1 \<noteq> []" using ne by simp
    have inv2: "room_inv (nextTurn ?r1)"
      unfolding nextTurn_Num [OF c ne1] using inv1 ne
      by (simp add: room_inv_def cursor_ok_def)
    then have "cursor_ok (nextTurn ?r1)" by (simp add: room_inv_def)
    from getCurrentPlayer_ok [OF this] obtain v c' where g:
      "getCurrentPlayer (nextTurn ?r1) = (Inr v, (nextTurn ?r1)\<lparr>currentTurnIndex := Num c'\<rparr>)"
      "cursor_ok ((nextTurn ?r1)\<lparr>currentTurnIndex := Num c'\<rparr>)" by blast
    have inv3: "room_inv ((nextTurn ?r1)\<lparr>currentTurnIndex := Num c'\<rparr>)"
      using inv2 g(2) by (simp add: room_inv_def)
    have "after_move r = snd (getState ((nextTurn ?r1)\<lparr>currentTurnIndex := Num c'\<rparr>))"
      using ck False g(1) by (simp add: after_move_def)
    then show ?thesis using room_inv_getState [OF inv3] by simp
  qed
qed

lemma room_inv_handleRollDice:
  assumes "room_inv r"
  shows "room_inv (handleRollDice r playerId roll)"
proof -
  from assms have "cursor_ok r" by (simp add: room_inv_def)
  from getCurrentPlayer_ok [OF this] obtain v c' where g:
    "getCurrentPlayer r = (Inr v, r\<lparr>currentTurnIndex := Num c'\<rparr>)"
    "cursor_ok (r\<lparr>currentTurnIndex := Num c'\<rparr>)"
    "case v of Some i \<Rightarrow> i = c' \<and> i < length (players r) \<and> status (players r ! i) = Active
        | None \<Rightarrow> currentTurnIndex r = Num c' \<and> (\<forall>p\<in>set (players r). status p \<noteq> Active)"
    by blast
  let ?r1 = "r\<lparr>currentTurnIndex := Num c'\<rparr>"
  have inv1: "room_inv ?r1" using assms g(2) by (simp add: room_inv_def)
  show ?thesis
  proof (cases "playerId = [] \<or> v = None \<or> id_p (players r ! the v) \<noteq> playerId")
    case True
    then have "handleRollDice r playerId roll = r \<or> handleRollDice r playerId roll = ?r1"
      using g(1) by (auto simp: handleRollDice_def split: option.splits)
    with assms inv1 show ?thesis by auto
  next
    case False
    then obtain i where i: "v = Some i" "playerId \<noteq> []" "id_p (players r ! i) = playerId" by auto
    with g(3) have il: "i < length (players r)" by simp
    obtain res gs p where us: "updateScore (gameState r) (players r ! i) roll = (res, gs, p)"
      by (cases "updateScore (gameState r) (players r ! i) roll") auto
    let ?r2 = "?r1\<lparr>gameState := gs, players := (players ?r1)[i := p]\<rparr>"
    have gsok: "(winner gs = None \<or> gameOver gs) \<and> targetScore gs = 18"
      using us assms by (auto simp: updateScore_def Let_def room_inv_def split: if_splits)
    have inv2: "room_inv ?r2" using inv1 gsok il
      by (auto simp: room_inv_def cursor_ok_def)
    have ne2: "players ?r2 \<noteq> []" using il by auto
    have "handleRollDice r playerId roll = after_move ?r2"
      using g(1) i us by (simp add: handleRollDice_def)
    then show ?thesis using room_inv_after_move [OF inv2 ne2] by simp
  qed
qed

lemma room_inv_handleHold:
  assumes "room_inv r"
  shows "room_inv (handleHold r playerId)"
proof -
  from assms have "cursor_ok r" by (simp add: room_inv_def)
  from getCurrentPlayer_ok [OF this] obtain v c' where g:
    "getCurrentPlayer r = (Inr v, r\<lparr>currentTurnIndex := Num c'\<rparr>)"
    "cursor_ok (r\<lparr>currentTurnIndex := Num c'\<rparr>)"
    "case v of Some i \<Rightarrow> i = c' \<and> i < length (players r) \<and> status (players r ! i) = Active
        | None \<Rightarrow> currentTurnIndex r = Num c' \<and> (\<forall>p\<in>set (players r). status p \<noteq> Active)"
    by blast
  let ?r1 = "r\<lparr>currentTurnIndex := Num c'\<rparr>"
  have inv1: "room_inv ?r1" using assms g(2) by (simp add: room_inv_def)
  show ?thesis
  proof (cases "playerId = [] \<or> v = None \<or> id_p (players r ! the v) \<noteq> playerId")
    case True
    then have "handleHold r playerId = r \<or> handleHold r playerId = ?r1"
      using g(1) by (auto simp: handleHold_def split: option.splits)
    with assms inv1 show ?thesis by auto
  next
    case False
    then obtain i where i: "v = Some i" "playerId \<noteq> []" "id_p (players r ! i) = playerId" by auto
    with g(3) have il: "i < length (players r)" by simp
    obtain res p where h: "hold (gameState r) (players r ! i) = (res, p)"
      by (cases "hold (gameState r) (players r ! i)") auto
    let ?r2 = "?r1\<lparr>players := (players ?r1)[i := p]\<rparr>"
    have inv2: "room_inv ?r2" using inv1 il
      by (auto simp: room_inv_def cursor_ok_def)
    then have "cursor_ok ?r2" by (simp add: room_inv_def)
    from getState_ok [OF this] obtain s c2 where gs:
      "getState ?r2 = (Inr s, ?r2\<lparr>currentTurnIndex := Num c2\<rparr>)"
      "cursor_ok (?r2\<lparr>currentTurnIndex := Num c2\<rparr>)" by blast
    let ?r3 = "?r2\<lparr>currentTurnIndex := Num c2\<rparr>"
    have inv3: "room_inv ?r3" using inv2 gs(2) by (simp add: room_inv_def)
    have ne3: "players ?r3 \<noteq> []" using il by auto
    have "handleHold r playerId = after_move ?r3"
      using g(1) i h gs(1) by (simp add: handleHold_def)
    then show ?thesis using room_inv_after_move [OF inv3 ne3] by simp
  qed
qed

lemma room_inv_handleJoinRoom:
  assumes "room_inv r"
  shows "room_inv (handleJoinRoom r playerId playerName sock now)"
proof (cases "playerName = []")
  case True
  with assms show ?thesis by (simp add: handleJoinRoom_def)
next
  case False
  let ?p = "new_Player playerId playerName sock now"
  obtain b r1 where a: "addPlayer r ?p = (b, r1)" by (cases "addPlayer r ?p") auto
  have inv1: "room_inv r1" using room_inv_addPlayer [OF assms, of ?p] a by simp
  show ?thesis
  proof (cases b)
    case False
    with \<open>playerName \<noteq> []\<close> a inv1 show ?thesis by (simp add: handleJoinRoom_def)
  next
    case True
    from inv1 have "cursor_ok r1" by (simp add: room_inv_def)
    from getState_ok [OF this] obtain s c' where gs:
      "getState r1 = (Inr s, r1\<lparr>currentTurnIndex := Num c'\<rparr>)"
      "cursor_ok (r1\<lparr>currentTurnIndex := Num c'\<rparr>)" by blast
    have inv2: "room_inv (r1\<lparr>currentTurnIndex := Num c'\<rparr>)"
      using inv1 gs(2) by (simp add: room_inv_def)
    have "handleJoinRoom r playerId playerName sock now
            = snd (getState (r1\<lparr>currentTurnIndex := Num c'\<rparr>))"
      using \<open>playerName \<noteq> []\<close> a True gs(1) by (simp add: handleJoinRoom_def)
    then show ?thesis using room_inv_getState [OF inv2] by simp
  qed
qed

lemma room_inv_handleNewGame: "room_inv r \<Longrightarrow> room_inv (handleNewGame r)"
  using room_inv_getState [OF room_inv_resetGame, of r] by (simp add: handleNewGame_def)

lemma room_inv_handleDisconnect:
  assumes "room_inv r"
  shows "room_inv (handleDisconnect r playerId)"
  using assms room_inv_getState [OF room_inv_removePlayer [OF assms], of playerId]
  by (simp add: handleDisconnect_def split: option.splits)

lemma room_inv_handle: "room_inv r \<Longrightarrow> room_inv (handle r ev)"
  by (cases ev)
    (simp_all add: room_inv_handleJoinRoom room_inv_handleRollDice room_inv_handleHold
      room_inv_handleNewGame room_inv_handleDisconnect)

lemma room_inv_run: "room_inv r \<Longrightarrow> room_inv (run r evs)"
  unfolding run_def by (induction evs arbitrary: r) (simp_all add: room_inv_handle)

text \<open>No event changes the target score: it is 18 in every room the handler can reach.\<close>

lemma targetScore_run: "targetScore (gameState (run (new_GameRoom rid maxp now) evs)) = 18"
  using room_inv_run [OF room_inv_new, of rid maxp now evs] by (simp add: room_inv_def)


section \<open>Sequences of addPlayer, removePlayer and nextTurn\<close>

text \<open>
  As long as \<^verbatim>\<open>nextTurn\<close> is not called on an empty roster, the cursor stays valid and
  \<^verbatim>\<open>getCurrentPlayer\<close> returns an active member of the roster or none.
\<close>

lemma cursor_ok_addPlayer: "cursor_ok r \<Longrightarrow> cursor_ok (snd (addPlayer r p))"
  by (auto simp: cursor_ok_def addPlayer_def Let_def split: jsnum.splits)

lemma cursor_ok_removePlayer: "cursor_ok r \<Longrightarrow> cursor_ok (snd (removePlayer r i))"
  by (auto simp: cursor_ok_def removePlayer_def Let_def js_ge_def split: jsnum.splits option.splits)

lemma cursor_ok_nextTurn: "cursor_ok r \<Longrightarrow> players r \<noteq> [] \<Longrightarrow> cursor_ok (nextTurn r)"
  by (auto simp: cursor_ok_def nextTurn_def succ_mod_def split: jsnum.splits)

lemma cursor_ok_calls: "cursor_ok r \<Longrightarrow> guarded r cs \<Longrightarrow> cursor_ok (calls r cs)"
  unfolding calls_def
proof (induction cs arbitrary: r)
  case Nil
  then show ?case by simp
next
  case (Cons c cs)
  then have "cursor_ok (call_step r c)"
    by (cases c) (auto simp: cursor_ok_addPlayer cursor_ok_removePlayer cursor_ok_nextTurn)
  with Cons show ?case by simp
qed

lemma getCurrentPlayer_after_guarded_calls:
  assumes "guarded (new_GameRoom rid maxp now) cs"
    and "getCurrentPlayer (calls (new_GameRoom rid maxp now) cs) = (res, r')"
  shows "players r' = players (calls (new_GameRoom rid maxp now) cs)
    \<and> (res = Inr None \<and> (\<forall>p\<in>set (players r'). status p \<noteq> Active)
        \<or> (\<exists>i<length (players r'). res = Inr (Some i) \<and> status (players r' ! i) = Active))"
proof -
  have "cursor_ok (new_GameRoom rid maxp now)" by (simp add: cursor_ok_def new_GameRoom_def)
  from cursor_ok_calls [OF this assms(1)] have "cursor_ok (calls (new_GameRoom rid maxp now) cs)" .
  from getCurrentPlayer_ok [OF this] assms(2) obtain v c' where
    res: "res = Inr v" and r': "r' = (calls (new_GameRoom rid maxp now) cs)\<lparr>currentTurnIndex := Num c'\<rparr>"
    and v: "case v of
          Some i \<Rightarrow> i = c' \<and> i < length (players (calls (new_GameRoom rid maxp now) cs))
             \<and> status (players (calls (new_GameRoom rid maxp now) cs) ! i) = Active
        | None \<Rightarrow> currentTurnIndex (calls (new_GameRoom rid maxp now) cs) = Num c'
             \<and> (\<forall>p\<in>set (players (calls (new_GameRoom rid maxp now) cs)). status p \<noteq> Active)"
    by auto
  have ps: "players r' = players (calls (new_GameRoom rid maxp now) cs)" unfolding r' by simp
  show ?thesis
  proof (cases v)
    case None
    with v res ps show ?thesis by simp
  next
    case (Some i)
    with v res ps show ?thesis by auto
  qed
qed

text \<open>
  C4. The claim is that after any sequence of \<^verbatim>\<open>addPlayer\<close>, \<^verbatim>\<open>removePlayer\<close> and
  \<^verbatim>\<open>nextTurn\<close> calls on a new room, \<^verbatim>\<open>getCurrentPlayer()\<close> returns an active
  member or none without throwing. \<^verbatim>\<open>nextTurn()\<close> on the empty room computes
  \<^verbatim>\<open>1 % 0\<close>, the cursor is \<^verbatim>\<open>NaN\<close> from then on, and once a player has joined
  \<^verbatim>\<open>getCurrentPlayer()\<close> reads \<^verbatim>\<open>players[NaN].status\<close> and throws.
\<close>

theorem getCurrentPlayer_throws_after_nextTurn_on_empty_room:
  "getCurrentPlayer (calls (new_GameRoom ''r'' 4 0) [NextTurn, AddPlayer (new_Player ''a'' ''Ann'' ''s1'' 1)])
     = (Inl TypeError,
        (new_GameRoom ''r'' 4 0)\<lparr>players := [new_Player ''a'' ''Ann'' ''s1'' 1], currentTurnIndex := NaN\<rparr>)"
  by (simp add: calls_def new_GameRoom_def new_Player_def addPlayer_def nextTurn_def succ_mod_def
      getCurrentPlayer_def)

section \<open>Snapshots\<close>

text \<open>With a cursor that is not valid, \<^verbatim>\<open>getState\<close> leaves the room as it is.\<close>

lemma getState_throws_same:
  assumes "\<not> cursor_ok r"
  shows "snd (getState r) = r"
proof (cases "players r = []")
  case True
  then show ?thesis by (simp add: getState_def getCurrentPlayer_def)
next
  case False
  then obtain m where m: "length (players r) = Suc m" by (cases "players r") auto
  have "getCurrentPlayer r = (Inl TypeError, r)"
  proof (cases "currentTurnIndex r")
    case NaN
    with m show ?thesis by (simp add: getCurrentPlayer_def)
  next
    case (Num c)
    with assms have "\<not> c < length (players r)" by (simp add: cursor_ok_def)
    with Num m show ?thesis by (simp add: getCurrentPlayer_def)
  qed
  then show ?thesis by (simp add: getState_def)
qed

text \<open>
  C9. A second \<^verbatim>\<open>getState()\<close> right after a first one gives the same result and leaves
  the room as the first one left it, in every room; and in every room that the session
  handler can reach from a new room, both calls return a snapshot (neither throws), the
  same one, although the first call may have moved the cursor past players that are not
  active.
\<close>

theorem getState_idempotent:
  "getState (snd (getState r)) = getState r
   \<and> (\<exists>s r1. getState (run (new_GameRoom rid maxp now) evs) = (Inr s, r1)
          \<and> getState r1 = (Inr s, r1))"
proof
  show "getState (snd (getState r)) = getState r"
  proof (cases "cursor_ok r")
    case True
    from getState_ok [OF True] obtain s c' where
      g: "getState r = (Inr s, r\<lparr>currentTurnIndex := Num c'\<rparr>)" by blast
    from getState_again [OF True g] g show ?thesis by simp
  next
    case False
    then show ?thesis by (simp add: getState_throws_same)
  qed
next
  have ok: "cursor_ok (run (new_GameRoom rid maxp now) evs)"
    using room_inv_run [OF room_inv_new, of rid maxp now evs] by (simp add: room_inv_def)
  from getState_ok [OF ok] obtain s c' where
    g: "getState (run (new_GameRoom rid maxp now) evs)
         = (Inr s, (run (new_GameRoom rid maxp now) evs)\<lparr>currentTurnIndex := Num c'\<rparr>)"
    by blast
  from getState_again [OF ok g] g
  show "\<exists>s r1. getState (run (new_GameRoom rid maxp now) evs) = (Inr s, r1)
          \<and> getState r1 = (Inr s, r1)" by blast
qed

theorem getState_idempotent_witness:
  "currentTurn (projr (fst (getState ((new_GameRoom ''r'' 4 0)
      \<lparr>players := [(new_Player ''a'' ''Ann'' ''s1'' 1)\<lparr>status := Held\<rparr>,
                   new_Player ''b'' ''Bob'' ''s2'' 2]\<rparr>)))) = Some ''b''
   \<and> currentTurnIndex (snd (getState ((new_GameRoom ''r'' 4 0)
      \<lparr>players := [(new_Player ''a'' ''Ann'' ''s1'' 1)\<lparr>status := Held\<rparr>,
                   new_Player ''b'' ''Bob'' ''s2'' 2]\<rparr>))) = Num 1
   \<and> getState (snd (getState ((new_GameRoom ''r'' 4 0)
      \<lparr>players := [(new_Player ''a'' ''Ann'' ''s1'' 1)\<lparr>status := Held\<rparr>,
                   new_Player ''b'' ''Bob'' ''s2'' 2]\<rparr>)))
     = getState ((new_GameRoom ''r'' 4 0)
      \<lparr>players := [(new_Player ''a'' ''Ann'' ''s1'' 1)\<lparr>status := Held\<rparr>,
                   new_Player ''b'' ''Bob'' ''s2'' 2]\<rparr>)"
proof -
  let ?r = "(new_GameRoom ''r'' 4 0)
      \<lparr>players := [(new_Player ''a'' ''Ann'' ''s1'' 1)\<lparr>status := Held\<rparr>, new_Player ''b'' ''Bob'' ''s2'' 2]\<rparr>"
  have "currentTurn (projr (fst (getState ?r))) = Some ''b''"
    "currentTurnIndex (snd (getState ?r)) = Num 1"
    by (simp_all add: getState_def getCurrentPlayer_def new_GameRoom_def new_Player_def nextTurn_def
        succ_mod_def id_or_null_def numeral_2_eq_2)
  with getState_idempotent [of ?r "''r''" 4 0 "[]"] show ?thesis by blast
qed

section \<open>Winner and end of the game\<close>

text \<open>
  C3, as amended. In every room that the session handler can reach from a new room
  (joins, disconnects, rolls, holds, new games), a winner is set only if \<open>gameOver\<close> is
  true. When \<^verbatim>\<open>checkGameOver\<close> itself ends the round (the game was not over and no
  player is active), \<open>gameOver\<close> is true afterwards, the winner is set if and only if
  some player is held or won, and the winner is none if every player is bust.
\<close>

theorem winner_invariant_amended:
  "(winner (gameState (run (new_GameRoom rid maxp now) evs)) \<noteq> None
      \<longrightarrow> gameOver (gameState (run (new_GameRoom rid maxp now) evs)))
   \<and> (\<not> gameOver gs \<and> (\<forall>p\<in>set ps. status p \<noteq> Active) \<longrightarrow>
        gameOver (fst (snd (checkGameOver gs ps)))
        \<and> (winner (fst (snd (checkGameOver gs ps))) \<noteq> None
             \<longleftrightarrow> (\<exists>p\<in>set (snd (snd (checkGameOver gs ps))). status p = Held \<or> status p = Won))
        \<and> ((\<forall>p\<in>set (snd (snd (checkGameOver gs ps))). status p = Bust)
             \<longrightarrow> winner (fst (snd (checkGameOver gs ps))) = None))"
proof (intro conjI impI)
  assume "winner (gameState (run (new_GameRoom rid maxp now) evs)) \<noteq> None"
  with room_inv_run [OF room_inv_new, of rid maxp now evs]
  show "gameOver (gameState (run (new_GameRoom rid maxp now) evs))"
    by (simp add: room_inv_def)
next
  assume a: "\<not> gameOver gs \<and> (\<forall>p\<in>set ps. status p \<noteq> Active)"
  then have "filter (\<lambda>p. status p = Active) ps = []" by (simp add: filter_empty_conv)
  with a have eq: "checkGameOver gs ps = (True, determineWinner (gs\<lparr>gameOver := True\<rparr>) ps)"
    by (simp add: checkGameOver_def split: prod.splits)
  show "gameOver (fst (snd (checkGameOver gs ps)))"
    unfolding eq by (simp add: determineWinner_gameOver)
  have both: "(winner (fst (determineWinner (gs\<lparr>gameOver := True\<rparr>) ps)) \<noteq> None
             \<longleftrightarrow> (\<exists>p\<in>set (snd (determineWinner (gs\<lparr>gameOver := True\<rparr>) ps)). status p = Held \<or> status p = Won))
        \<and> ((\<forall>p\<in>set (snd (determineWinner (gs\<lparr>gameOver := True\<rparr>) ps)). status p = Bust)
             \<longrightarrow> winner (fst (determineWinner (gs\<lparr>gameOver := True\<rparr>) ps)) = None)"
  proof (cases "validPlayers ps = []")
    case True
    then have "\<forall>p\<in>set ps. status p \<noteq> Held \<and> status p \<noteq> Won" by (simp add: validPlayers_Nil)
    then show ?thesis unfolding determineWinner_none [OF True] by auto
  next
    case False
    from determineWinner_some [OF False, of "gs\<lparr>gameOver := True\<rparr>"] obtain w where
      w: "w < length ps"
      "determineWinner (gs\<lparr>gameOver := True\<rparr>) ps
        = (gs\<lparr>gameOver := True, winner := Some (id_p (ps ! w))\<rparr>, ps[w := (ps ! w)\<lparr>status := Won\<rparr>])"
      by auto
    have "(ps ! w)\<lparr>status := Won\<rparr> \<in> set (ps[w := (ps ! w)\<lparr>status := Won\<rparr>])"
      using w(1) by (simp add: set_update_memI)
    then have "\<exists>p\<in>set (ps[w := (ps ! w)\<lparr>status := Won\<rparr>]). status p = Won" by force
    then show ?thesis unfolding w(2) by fastforce
  qed
  from both show "winner (fst (snd (checkGameOver gs ps))) \<noteq> None
             \<longleftrightarrow> (\<exists>p\<in>set (snd (snd (checkGameOver gs ps))). status p = Held \<or> status p = Won)"
    unfolding eq by simp
  from both show "\<forall>p\<in>set (snd (snd (checkGameOver gs ps))). status p = Bust
    \<Longrightarrow> winner (fst (snd (checkGameOver gs ps))) = None"
    unfolding eq by simp
qed

text \<open>
  C3 as stated fails in both directions. Ann and Bob join, Ann holds, Bob disconnects:
  \<^verbatim>\<open>removePlayer\<close> sets \<open>gameOver\<close> without determining a winner, so the game is over,
  the one remaining player is held, and there is no winner. Ann and Bob join and roll in
  turn until Ann reaches 18 and wins, Ann disconnects, Bob rolls twice more and busts: the
  game is over, the only player is bust, and the winner is still Ann's id.
\<close>

theorem winner_invariant_counterexample:
  "gameOver (gameState (run (new_GameRoom ''r'' 4 0)
      [JoinRoom ''a'' ''Ann'' ''s1'' 1, JoinRoom ''b'' ''Bob'' ''s2'' 2, HoldEv ''a'', Disconnect ''b'']))
   \<and> map status (players (run (new_GameRoom ''r'' 4 0)
      [JoinRoom ''a'' ''Ann'' ''s1'' 1, JoinRoom ''b'' ''Bob'' ''s2'' 2, HoldEv ''a'', Disconnect ''b'']))
       = [Held]
   \<and> winner (gameState (run (new_GameRoom ''r'' 4 0)
      [JoinRoom ''a'' ''Ann'' ''s1'' 1, JoinRoom ''b'' ''Bob'' ''s2'' 2, HoldEv ''a'', Disconnect ''b'']))
       = None
   \<and> gameOver (gameState (run (new_GameRoom ''r'' 4 0)
      [JoinRoom ''a'' ''Ann'' ''s1'' 1, JoinRoom ''b'' ''Bob'' ''s2'' 2, RollDice ''a'' 6,
       RollDice ''b'' 5, RollDice ''a'' 6, RollDice ''b'' 5, RollDice ''a'' 6, Disconnect ''a'',
       RollDice ''b'' 6, RollDice ''b'' 6]))
   \<and> map status (players (run (new_GameRoom ''r'' 4 0)
      [JoinRoom ''a'' ''Ann'' ''s1'' 1, JoinRoom ''b'' ''Bob'' ''s2'' 2, RollDice ''a'' 6,
       RollDice ''b'' 5, RollDice ''a'' 6, RollDice ''b'' 5, RollDice ''a'' 6, Disconnect ''a'',
       RollDice ''b'' 6, RollDice ''b'' 6]))
       = [Bust]
   \<and> winner (gameState (run (new_GameRoom ''r'' 4 0)
      [JoinRoom ''a'' ''Ann'' ''s1'' 1, JoinRoom ''b'' ''Bob'' ''s2'' 2, RollDice ''a'' 6,
       RollDice ''b'' 5, RollDice ''a'' 6, RollDice ''b'' 5, RollDice ''a'' 6, Disconnect ''a'',
       RollDice ''b'' 6, RollDice ''b'' 6]))
       = Some ''a''"
  by code_simp

theorem winner_invariant_amended_witness:
  "winner (gameState (run (new_GameRoom ''r'' 4 0)
      [JoinRoom ''a'' ''Ann'' ''s1'' 1, JoinRoom ''b'' ''Bob'' ''s2'' 2, HoldEv ''a'', HoldEv ''b''])) = Some ''a''
   \<and> gameOver (gameState (run (new_GameRoom ''r'' 4 0)
      [JoinRoom ''a'' ''Ann'' ''s1'' 1, JoinRoom ''b'' ''Bob'' ''s2'' 2, HoldEv ''a'', HoldEv ''b'']))
   \<and> \<not> gameOver new_GameState
   \<and> gameOver (fst (snd (checkGameOver new_GameState
        [(new_Player ''a'' ''Ann'' ''s1'' 1)\<lparr>score := 15, status := Held\<rparr>])))
   \<and> winner (fst (snd (checkGameOver new_GameState
        [(new_Player ''a'' ''Ann'' ''s1'' 1)\<lparr>score := 15, status := Held\<rparr>]))) \<noteq> None"
proof -
  have e: "winner (gameState (run (new_GameRoom ''r'' 4 0)
      [JoinRoom ''a'' ''Ann'' ''s1'' 1, JoinRoom ''b'' ''Bob'' ''s2'' 2, HoldEv ''a'', HoldEv ''b''])) = Some ''a''"
    by code_simp
  have c: "\<exists>p\<in>set (snd (snd (checkGameOver new_GameState
        [(new_Player ''a'' ''Ann'' ''s1'' 1)\<lparr>score := 15, status := Held\<rparr>]))). status p = Held \<or> status p = Won"
    by code_simp
  have n: "\<not> gameOver new_GameState" by (simp add: new_GameState_def)
  have h: "\<forall>p\<in>set [(new_Player ''a'' ''Ann'' ''s1'' 1)\<lparr>score := 15, status := Held\<rparr>]. status p \<noteq> Active"
    by simp
  from winner_invariant_amended [of "''r''" 4 0
      "[JoinRoom ''a'' ''Ann'' ''s1'' 1, JoinRoom ''b'' ''Bob'' ''s2'' 2, HoldEv ''a'', HoldEv ''b'']"
      new_GameState "[(new_Player ''a'' ''Ann'' ''s1'' 1)\<lparr>score := 15, status := Held\<rparr>]"]
    e c n h
  show ?thesis by blast
qed

end
